theory Spec2Isabelle
  imports Complex_Main "HOL-Library.Log_Nat"
begin

section \<open>JavaScript numbers\<close>

text \<open>
  Every number of \<^verbatim>\<open>src/App.js\<close> is an IEEE 754 binary64 value. A finite one is
  modelled by the rational it denotes, the two infinities and NaN by constructors of
  their own. The two zeros are identified: the program's additions, multiplications and
  comparisons cannot tell them apart, and only a division by a zero could.
\<close>

datatype jsnum = Fin rat | PInf | NInf | NaN

definition pow2 :: "int \<Rightarrow> rat" where
  "pow2 e = (if 0 \<le> e then 2 ^ nat e else 1 / 2 ^ nat (- e))"

text \<open>The exponent of a positive rational: the \<open>k\<close> with \<open>2\<^sup>k \<le> r < 2\<^sup>k\<^sup>+\<^sup>1\<close>.\<close>

definition ilog2 :: "rat \<Rightarrow> int" where
  "ilog2 r = (case quotient_of r of (p, q) \<Rightarrow>
     let d = bitlen p - bitlen q in if pow2 d \<le> r then d else d - 1)"

definition round_half_even :: "rat \<Rightarrow> int" where
  "round_half_even q = (let f = \<lfloor>q\<rfloor>; d = q - of_int f in
     if d < 1 / 2 then f else if 1 / 2 < d then f + 1 else if even f then f else f + 1)"

text \<open>
  Rounding to the nearest binary64 value, ties to even: 53 significant bits, the unit
  in the last place never below \<open>2\<^sup>-\<^sup>1\<^sup>0\<^sup>7\<^sup>4\<close> (subnormal numbers), and overflow to an
  infinity once the rounded value reaches \<open>2\<^sup>1\<^sup>0\<^sup>2\<^sup>4\<close>.
\<close>

definition round64 :: "rat \<Rightarrow> jsnum" where
  "round64 r = (if r = 0 then Fin 0 else
     let a = \<bar>r\<bar>; e = max (ilog2 a - 52) (- 1074);
         v = of_int (round_half_even (a / pow2 e)) * pow2 e
     in if pow2 1024 \<le> v then (if 0 < r then PInf else NInf)
        else Fin (if 0 < r then v else - v))"

definition js_neg :: "jsnum \<Rightarrow> jsnum" where
  "js_neg a = (case a of Fin x \<Rightarrow> Fin (- x) | PInf \<Rightarrow> NInf | NInf \<Rightarrow> PInf | NaN \<Rightarrow> NaN)"

definition js_add :: "jsnum \<Rightarrow> jsnum \<Rightarrow> jsnum" where
  "js_add a b = (case (a, b) of
       (NaN, _) \<Rightarrow> NaN
     | (_, NaN) \<Rightarrow> NaN
     | (PInf, NInf) \<Rightarrow> NaN
     | (NInf, PInf) \<Rightarrow> NaN
     | (PInf, _) \<Rightarrow> PInf
     | (_, PInf) \<Rightarrow> PInf
     | (NInf, _) \<Rightarrow> NInf
     | (_, NInf) \<Rightarrow> NInf
     | (Fin x, Fin y) \<Rightarrow> round64 (x + y))"

definition js_sub :: "jsnum \<Rightarrow> jsnum \<Rightarrow> jsnum" where
  "js_sub a b = js_add a (js_neg b)"

text \<open>The sign of a number that is not NaN: \<open>-1\<close>, \<open>0\<close> or \<open>1\<close>.\<close>

definition js_sign :: "jsnum \<Rightarrow> int" where
  "js_sign a = (case a of Fin x \<Rightarrow> (if x < 0 then - 1 else if x = 0 then 0 else 1)
     | PInf \<Rightarrow> 1 | NInf \<Rightarrow> - 1 | NaN \<Rightarrow> 0)"

definition js_inf :: "int \<Rightarrow> jsnum" where
  "js_inf s = (if s = 0 then NaN else if 0 < s then PInf else NInf)"

definition js_mul :: "jsnum \<Rightarrow> jsnum \<Rightarrow> jsnum" where
  "js_mul a b = (case (a, b) of
       (NaN, _) \<Rightarrow> NaN
     | (_, NaN) \<Rightarrow> NaN
     | (Fin x, Fin y) \<Rightarrow> round64 (x * y)
     | _ \<Rightarrow> js_inf (js_sign a * js_sign b))"

definition js_div :: "jsnum \<Rightarrow> jsnum \<Rightarrow> jsnum" where
  "js_div a b = (case (a, b) of
       (NaN, _) \<Rightarrow> NaN
     | (_, NaN) \<Rightarrow> NaN
     | (Fin x, Fin y) \<Rightarrow> (if y = 0 then js_inf (js_sign a) else round64 (x / y))
     | (Fin x, _) \<Rightarrow> Fin 0
     | (_, Fin y) \<Rightarrow> (if y < 0 then js_neg a else a)
     | _ \<Rightarrow> NaN)"

definition js_lt :: "jsnum \<Rightarrow> jsnum \<Rightarrow> bool" where
  "js_lt a b = (case (a, b) of
       (NaN, _) \<Rightarrow> False
     | (_, NaN) \<Rightarrow> False
     | (Fin x, Fin y) \<Rightarrow> x < y
     | (_, NInf) \<Rightarrow> False
     | (NInf, _) \<Rightarrow> True
     | (PInf, _) \<Rightarrow> False
     | (_, PInf) \<Rightarrow> True)"

definition js_abs :: "jsnum \<Rightarrow> jsnum" where
  "js_abs a = (case a of Fin x \<Rightarrow> Fin \<bar>x\<bar> | PInf \<Rightarrow> PInf | NInf \<Rightarrow> PInf | NaN \<Rightarrow> NaN)"

text \<open>
  A counter or a pixel coordinate, as the number it is. The counters of the program are
  integers that start at 0 and grow by 1; below \<open>2\<^sup>5\<^sup>3\<close> every one of them is a binary64
  value and \<^verbatim>\<open>n + 1\<close> is exact, so they are kept as integers and converted where
  they meet a fraction.
\<close>

definition js_int :: "int \<Rightarrow> jsnum" where
  "js_int n = round64 (of_int n)"


section \<open>Fractals: the Mandelbrot renderer\<close>

text \<open>
  The canvas is 400 by 400. A pixel column \<open>x\<close> and row \<open>y\<close> give the sample
  \<open>(cx, cy)\<close> of the complex plane; \<open>zoom\<close> is the state of the slider.
\<close>

definition width :: jsnum where
  "width = Fin 400"

definition height :: jsnum where
  "height = Fin 400"

definition sample_cx :: "jsnum \<Rightarrow> nat \<Rightarrow> jsnum" where
  "sample_cx zoom x =
     js_sub (js_div (js_div (js_sub (js_int (int x)) (js_div width (Fin 2)))
                            (js_div width (Fin 4))) zoom)
            (Fin (1 / 2))"

definition sample_cy :: "jsnum \<Rightarrow> nat \<Rightarrow> jsnum" where
  "sample_cy zoom y =
     js_div (js_div (js_sub (js_int (int y)) (js_div height (Fin 2)))
                    (js_div height (Fin 4))) zoom"

text \<open>\<^verbatim>\<open>zx * zx + zy * zy\<close>, the squared modulus that the loop tests.\<close>

definition norm2 :: "jsnum \<Rightarrow> jsnum \<Rightarrow> jsnum" where
  "norm2 zx zy = js_add (js_mul zx zx) (js_mul zy zy)"

text \<open>
  The \<^verbatim>\<open>while\<close> loop of one pixel. The counter \<open>i\<close> and the bound \<open>iterations\<close>
  are integers (the slider gives 10 to 150), far below \<open>2\<^sup>5\<^sup>3\<close>, so \<^verbatim>\<open>i++\<close> is exact.
  The loop returns the last \<open>z\<close> with the count.
\<close>

function mandelbrot_while ::
  "jsnum \<Rightarrow> jsnum \<Rightarrow> int \<Rightarrow> jsnum \<Rightarrow> jsnum \<Rightarrow> int \<Rightarrow> jsnum \<times> jsnum \<times> int" where
  "mandelbrot_while cx cy iterations zx zy i =
     (if js_lt (norm2 zx zy) (Fin 4) \<and> i < iterations
      then let temp = js_add (js_sub (js_mul zx zx) (js_mul zy zy)) cx;
               zy' = js_add (js_mul (js_mul (Fin 2) zx) zy) cy
           in mandelbrot_while cx cy iterations temp zy' (i + 1)
      else (zx, zy, i))"
  by pat_completeness auto
termination
  by (relation "measure (\<lambda>(cx, cy, iterations, zx, zy, i). nat (iterations - i))") auto

declare mandelbrot_while.simps [simp del]

definition iterationCount :: "jsnum \<Rightarrow> int \<Rightarrow> nat \<Rightarrow> nat \<Rightarrow> int" where
  "iterationCount zoom iterations x y =
     snd (snd (mandelbrot_while (sample_cx zoom x) (sample_cy zoom y) iterations
                 (Fin 0) (Fin 0) 0))"

text \<open>The colour of \<^verbatim>\<open>fillStyle\<close>: \<^verbatim>\<open>hsl(hue, saturation%, lightness%)\<close>.\<close>

record hsl =
  hue :: jsnum
  saturation :: nat
  lightness :: nat

definition colour :: "int \<Rightarrow> int \<Rightarrow> hsl" where
  "colour i iterations =
     \<lparr> hue = js_mul (js_div (js_int i) (js_int iterations)) (Fin 360),
       saturation = (if i < iterations then 100 else 0),
       lightness = (if i < iterations then 50 else 0) \<rparr>"

definition pixel :: "jsnum \<Rightarrow> int \<Rightarrow> nat \<Rightarrow> nat \<Rightarrow> hsl" where
  "pixel zoom iterations x y = colour (iterationCount zoom iterations x y) iterations"

text \<open>The two \<^verbatim>\<open>for\<close> loops: the \<^verbatim>\<open>fillRect(x, y, 1, 1)\<close> calls in their order.\<close>

definition render :: "jsnum \<Rightarrow> int \<Rightarrow> (nat \<times> nat \<times> hsl) list" where
  "render zoom iterations =
     concat (map (\<lambda>x. map (\<lambda>y. (x, y, pixel zoom iterations x y)) [0..<400]) [0..<400])"

text \<open>
  The orbit of \<open>z \<leftarrow> z\<^sup>2 + c\<close> from \<open>z = 0\<close>, by the assignments of the loop body: the
  value of \<open>(zx, zy)\<close> after \<open>n\<close> passes.
\<close>

fun orbit :: "jsnum \<Rightarrow> jsnum \<Rightarrow> nat \<Rightarrow> jsnum \<times> jsnum" where
  "orbit cx cy 0 = (Fin 0, Fin 0)"
| "orbit cx cy (Suc n) =
     (case orbit cx cy n of (zx, zy) \<Rightarrow>
        (js_add (js_sub (js_mul zx zx) (js_mul zy zy)) cx,
         js_add (js_mul (js_mul (Fin 2) zx) zy) cy))"


section \<open>Probability: the coin simulator\<close>

text \<open>The state of the \<^verbatim>\<open>ProbabilitySimulator\<close> component.\<close>

record sim =
  trials :: nat
  heads :: nat
  history :: "jsnum list"

definition sim_init :: sim where
  "sim_init = \<lparr> trials = 0, heads = 0, history = [] \<rparr>"

text \<open>\<^verbatim>\<open>h.slice(-50)\<close>: the last 50 entries, all of them when there are fewer.\<close>

definition slice_last :: "nat \<Rightarrow> 'a list \<Rightarrow> 'a list" where
  "slice_last n h = drop (length h - n) h"

text \<open>
  \<^verbatim>\<open>newRatio\<close>. It reads the constants \<^verbatim>\<open>heads\<close> and \<^verbatim>\<open>trials\<close> of the render
  whose \<^verbatim>\<open>runTrial\<close> is called, the state \<open>seen\<close> by that render.
\<close>

definition newRatio :: "sim \<Rightarrow> bool \<Rightarrow> jsnum" where
  "newRatio seen result =
     (if result then js_div (js_int (int (heads seen + 1))) (js_int (int (trials seen + 1)))
      else js_div (js_int (int (heads seen))) (js_int (int (trials seen + 1))))"

text \<open>
  \<^verbatim>\<open>runTrial()\<close>, with \<open>u\<close> the value of \<^verbatim>\<open>Math.random()\<close>. The three setters take
  updater functions, which React applies to the state \<open>s\<close> of the moment; \<^verbatim>\<open>newRatio\<close> is
  computed from \<open>seen\<close>. A click on the button calls the handler of the render on the
  screen, where \<open>seen = s\<close>.
\<close>

definition runTrial :: "sim \<Rightarrow> rat \<Rightarrow> sim \<Rightarrow> sim" where
  "runTrial seen u s =
     (let result = (1 / 2 < u)
      in s\<lparr> trials := trials s + 1,
            heads := (if result then heads s + 1 else heads s),
            history := slice_last 50 (history s) @ [newRatio seen result] \<rparr>)"

text \<open>
  \<^verbatim>\<open>runMany()\<close>: its 100 timers all call the \<^verbatim>\<open>runTrial\<close> of the render in which
  the button was clicked; \<open>draw i\<close> is the random value of timer \<open>i\<close>. No other event
  comes between the timers here.
\<close>

definition runMany :: "sim \<Rightarrow> (nat \<Rightarrow> rat) \<Rightarrow> sim \<Rightarrow> sim" where
  "runMany seen draw s = fold (\<lambda>i. runTrial seen (draw i)) [0..<100] s"

definition reset :: "sim \<Rightarrow> sim" where
  "reset s = s\<lparr> trials := 0, heads := 0, history := [] \<rparr>"

text \<open>The height in pixels of the bar drawn for a history entry.\<close>

definition barHeight :: "jsnum \<Rightarrow> jsnum" where
  "barHeight val = js_mul (js_abs (js_sub val (Fin (1 / 2)))) (Fin 500)"


section \<open>Game theory: the prisoner's dilemma\<close>

text \<open>
  The state of the \<^verbatim>\<open>GameTheory\<close> component, one field for each \<^verbatim>\<open>useState\<close>;
  \<^verbatim>\<open>null\<close> is \<open>None\<close>.
\<close>

record score =
  you :: nat
  opponent :: nat

record game =
  yourChoice :: "string option"
  opponentChoice :: "string option"
  scores :: score
  rounds :: nat
  opponentStrategy :: string
  lastOpponentMove :: "string option"

definition game_init :: game where
  "game_init = \<lparr> yourChoice = None, opponentChoice = None,
     scores = \<lparr> you = 0, opponent = 0 \<rparr>, rounds = 0,
     opponentStrategy = ''tit-for-tat'', lastOpponentMove = None \<rparr>"

text \<open>\<^verbatim>\<open>m || 'cooperate'\<close>: \<^verbatim>\<open>null\<close> and the empty string are falsy.\<close>

definition or_cooperate :: "string option \<Rightarrow> string" where
  "or_cooperate m = (case m of None \<Rightarrow> ''cooperate''
     | Some c \<Rightarrow> (if c = [] then ''cooperate'' else c))"

text \<open>
  The opponent's move of \<^verbatim>\<open>play\<close>, the \<^verbatim>\<open>switch\<close> on the strategy; \<open>u\<close> is the value
  that \<^verbatim>\<open>Math.random()\<close> returns when the strategy asks for it.
\<close>

definition oppMove :: "game \<Rightarrow> rat \<Rightarrow> string" where
  "oppMove s u =
     (if opponentStrategy s = ''cooperate'' then ''cooperate''
      else if opponentStrategy s = ''defect'' then ''defect''
      else if opponentStrategy s = ''tit-for-tat'' then or_cooperate (lastOpponentMove s)
      else if opponentStrategy s = ''random''
        then (if 1 / 2 < u then ''cooperate'' else ''defect'')
      else ''cooperate'')"

text \<open>The payoff matrix: the points of the human and of the opponent.\<close>

definition payoff :: "string \<Rightarrow> string \<Rightarrow> nat \<times> nat" where
  "payoff choice opp =
     (if choice = ''cooperate'' \<and> opp = ''cooperate'' then (3, 3)
      else if choice = ''cooperate'' \<and> opp = ''defect'' then (0, 5)
      else if choice = ''defect'' \<and> opp = ''cooperate'' then (5, 0)
      else (1, 1))"

text \<open>
  \<^verbatim>\<open>play(choice)\<close>. The two buttons call the handler of the render that is on the
  screen, so the strategy and the memory it reads are those of the current state.
\<close>

definition play :: "string \<Rightarrow> rat \<Rightarrow> game \<Rightarrow> game" where
  "play choice u s =
     (let opp = oppMove s u;
          yourPoints = fst (payoff choice opp);
          oppPoints = snd (payoff choice opp)
      in s\<lparr> yourChoice := Some choice,
            opponentChoice := Some opp,
            lastOpponentMove := Some choice,
            rounds := rounds s + 1,
            scores := \<lparr> you = you (scores s) + yourPoints,
                        opponent = opponent (scores s) + oppPoints \<rparr> \<rparr>)"

text \<open>The \<^verbatim>\<open>onChange\<close> handler of the strategy selector.\<close>

definition changeStrategy :: "string \<Rightarrow> game \<Rightarrow> game" where
  "changeStrategy v s =
     s\<lparr> opponentStrategy := v,
        scores := \<lparr> you = 0, opponent = 0 \<rparr>,
        rounds := 0,
        lastOpponentMove := None \<rparr>"

text \<open>
  A sequence of rounds: each entry is the human's choice and the random draw of that
  round, and each round is a call of \<open>play\<close>. \<open>opponentMoves\<close> lists what the opponent
  played in each of them.
\<close>

fun opponentMoves :: "(string \<times> rat) list \<Rightarrow> game \<Rightarrow> string list" where
  "opponentMoves [] s = []"
| "opponentMoves ((c, u) # cs) s = oppMove s u # opponentMoves cs (play c u s)"


section \<open>Topology: the rotation timer\<close>

text \<open>
  The remainder of JavaScript takes the sign of the dividend. The angle is an integer
  far below \<open>2\<^sup>5\<^sup>3\<close>, so the addition is exact.
\<close>

definition js_rem :: "int \<Rightarrow> int \<Rightarrow> int" where
  "js_rem a b = sgn a * (\<bar>a\<bar> mod \<bar>b\<bar>)"

definition tick :: "int \<Rightarrow> int" where
  "tick r = js_rem (r + 1) 360"

text \<open>The angle after \<open>n\<close> ticks of the timer, from the initial \<^verbatim>\<open>useState(0)\<close>.\<close>

definition rotation_after :: "nat \<Rightarrow> int" where
  "rotation_after n = (tick ^^ n) 0"


section \<open>Properties of the rounding\<close>

lemma pow2_powi: "pow2 e = 2 powi e"
  by (simp add: pow2_def power_int_def inverse_eq_divide power_one_over)

lemma pow2_pos: "0 < pow2 e"
  by (simp add: pow2_powi)

lemma pow2_add: "pow2 (a + b) = pow2 a * pow2 b"
  by (simp add: pow2_powi power_int_add)

lemma pow2_diff: "pow2 (a - b) = pow2 a / pow2 b"
  by (simp add: pow2_powi power_int_diff)

lemma pow2_mono: "a \<le> b \<Longrightarrow> pow2 a \<le> pow2 b"
  by (simp add: pow2_powi power_int_increasing)

lemma pow2_strict_mono: "a < b \<Longrightarrow> pow2 a < pow2 b"
  by (simp add: pow2_powi power_int_strict_increasing)

lemma pow2_le_less_exp: "pow2 a \<le> r \<Longrightarrow> r < pow2 b \<Longrightarrow> a < b"
  using pow2_mono [of b a] by (cases "a < b") auto

lemma pow2_le_le_exp: "pow2 a \<le> r \<Longrightarrow> r \<le> pow2 b \<Longrightarrow> a \<le> b"
  using pow2_strict_mono [of b a] by (cases "a \<le> b") auto

lemma pow2_nat: "0 \<le> e \<Longrightarrow> pow2 e = of_int (2 ^ nat e)"
  by (simp add: pow2_def)

lemma ilog2_bounds:
  assumes "0 < r"
  shows "pow2 (ilog2 r) \<le> r \<and> r < pow2 (ilog2 r + 1)"
proof -
  obtain p q where pq: "quotient_of r = (p, q)" by force
  have q: "0 < q" using quotient_of_denom_pos [OF pq] .
  have r: "r = of_int p / of_int q" using quotient_of_div [OF pq] .
  have p: "0 < p" using assms q by (simp add: r zero_less_divide_iff)
  define bp bq where "bp = bitlen p" and "bq = bitlen q"
  have bp1: "1 \<le> bp" using p bitlen_eq_zero_iff [of p] bitlen_nonneg [of p] by (simp add: bp_def)
  have bq1: "1 \<le> bq" using q bitlen_eq_zero_iff [of q] bitlen_nonneg [of q] by (simp add: bq_def)
  have pb: "(2::int) ^ nat (bp - 1) \<le> p" "p < 2 ^ nat bp"
    using bitlen_bounds [OF p] by (simp_all add: bp_def)
  have qb: "(2::int) ^ nat (bq - 1) \<le> q" "q < 2 ^ nat bq"
    using bitlen_bounds [OF q] by (simp_all add: bq_def)
  have pl: "pow2 (bp - 1) \<le> of_int p" 
    using pb(1) bp1 by (simp add: pow2_nat)
  have pu: "of_int p < pow2 bp"
    using pb(2) bp1 by (simp add: pow2_nat)
  have ql: "pow2 (bq - 1) \<le> of_int q" 
    using qb(1) bq1 by (simp add: pow2_nat)
  have qu: "of_int q < pow2 bq"
    using qb(2) bq1 by (simp add: pow2_nat)
  have qpos: "(0::rat) < of_int q" using q by simp
  have up: "r < pow2 (bp - bq + 1)"
  proof -
    have "pow2 (bp - bq + 1) * of_int q \<ge> pow2 (bp - bq + 1) * pow2 (bq - 1)"
      using ql pow2_pos [of "bp - bq + 1"] by (simp add: mult_left_mono)
    moreover have "pow2 (bp - bq + 1) * pow2 (bq - 1) = pow2 bp"
      by (simp add: pow2_add [symmetric])
    ultimately have "of_int p < pow2 (bp - bq + 1) * of_int q" using pu by simp
    then show ?thesis using qpos by (simp add: r pos_divide_less_eq)
  qed
  have lo: "pow2 (bp - bq - 1) \<le> r"
  proof -
    have "pow2 (bp - bq - 1) * of_int q \<le> pow2 (bp - bq - 1) * pow2 bq"
      using qu pow2_pos [of "bp - bq - 1"] by (simp add: mult_left_mono)
    moreover have "pow2 (bp - bq - 1) * pow2 bq = pow2 (bp - 1)"
      by (simp add: pow2_add [symmetric])
    ultimately have "pow2 (bp - bq - 1) * of_int q \<le> of_int p" using pl by simp
    then show ?thesis using qpos by (simp add: r pos_le_divide_eq)
  qed
  show ?thesis
  proof (cases "pow2 (bp - bq) \<le> r")
    case True
    then have "ilog2 r = bp - bq" by (simp add: ilog2_def pq bp_def bq_def Let_def)
    then show ?thesis using True up by simp
  next
    case False
    then have "ilog2 r = bp - bq - 1" by (simp add: ilog2_def pq bp_def bq_def Let_def)
    then show ?thesis using False lo by simp
  qed
qed

lemma round_half_even_int: "round_half_even (of_int n) = n"
  by (simp add: round_half_even_def)

lemma round_half_even_le: "q \<le> of_int n \<Longrightarrow> round_half_even q \<le> n"
proof -
  assume q: "q \<le> of_int n"
  have f: "\<lfloor>q\<rfloor> \<le> n" using q by (simp add: floor_le_iff) 
  show ?thesis
  proof (cases "q = of_int n")
    case True
    then show ?thesis by (simp add: round_half_even_int)
  next
    case False
    then have "q < of_int n" using q by simp
    then have "\<lfloor>q\<rfloor> < n" by (simp add: floor_less_iff)
    then show ?thesis by (simp add: round_half_even_def Let_def)
  qed
qed

lemma round_half_even_nonneg: "0 \<le> q \<Longrightarrow> 0 \<le> round_half_even q"
proof -
  assume "0 \<le> q"
  then have "0 \<le> \<lfloor>q\<rfloor>" by simp
  then show ?thesis by (simp add: round_half_even_def Let_def)
qed

lemma pow2_ratio_int: "e \<le> k \<Longrightarrow> pow2 k / pow2 e = of_int (2 ^ nat (k - e))"
  using pow2_nat [of "k - e"] by (simp add: pow2_diff)

text \<open>A multiple of \<open>2\<^sup>k\<close> with at most 53 bits is a binary64 value: rounding keeps it.\<close>

lemma round64_exact:
  assumes r: "r = of_int m * pow2 k" and m: "\<bar>m\<bar> < 2 ^ 53"
    and k: "- 1074 \<le> k" and fin: "\<bar>r\<bar> < pow2 1024"
  shows "round64 r = Fin r"
proof (cases "r = 0")
  case True
  then show ?thesis by (simp add: round64_def)
next
  case False
  define a where "a = \<bar>r\<bar>"
  define e where "e = max (ilog2 a - 52) (- 1074)"
  have a0: "0 < a" using False by (simp add: a_def)
  have am: "a = of_int \<bar>m\<bar> * pow2 k"
    using pow2_pos [of k] by (simp add: a_def r abs_mult)
  have "of_int \<bar>m\<bar> < (of_int (2 ^ 53) :: rat)" using m by (simp only: of_int_less_iff)
  then have "of_int \<bar>m\<bar> < pow2 53" by (simp add: pow2_def)
  then have "a < pow2 53 * pow2 k" using pow2_pos [of k] by (simp add: am)
  then have "a < pow2 (k + 53)" by (simp add: pow2_add [symmetric] add.commute)
  moreover have "pow2 (ilog2 a) \<le> a" using ilog2_bounds [OF a0] by simp
  ultimately have "ilog2 a < k + 53" by (rule pow2_le_less_exp [rotated])
  then have ek: "e \<le> k" using k by (simp add: e_def)
  have "a / pow2 e = of_int \<bar>m\<bar> * (pow2 k / pow2 e)" by (simp add: am)
  also have "\<dots> = of_int (\<bar>m\<bar> * 2 ^ nat (k - e))"
    by (simp only: pow2_ratio_int [OF ek] of_int_mult)
  finally have "round_half_even (a / pow2 e) = \<bar>m\<bar> * 2 ^ nat (k - e)"
    by (simp only: round_half_even_int)
  then have "of_int (round_half_even (a / pow2 e)) * pow2 e
      = of_int \<bar>m\<bar> * (of_int (2 ^ nat (k - e)) * pow2 e)"
    by (simp only: of_int_mult mult.assoc)
  also have "of_int (2 ^ nat (k - e)) * pow2 e = pow2 k"
    using pow2_ratio_int [OF ek] pow2_pos [of e] by (simp add: field_simps)
  finally have v: "of_int (round_half_even (a / pow2 e)) * pow2 e = a" by (simp add: am)
  have "round64 r = (if pow2 1024 \<le> a then (if 0 < r then PInf else NInf)
      else Fin (if 0 < r then a else - a))"
    using False v by (simp add: round64_def Let_def a_def [symmetric] e_def [symmetric])
  then show ?thesis using fin by (simp add: a_def)
qed

text \<open>
  Rounding keeps the sign and does not cross a power of two: a number of magnitude at most
  \<open>2\<^sup>k\<close> rounds to a finite number of magnitude at most \<open>2\<^sup>k\<close>.
\<close>

lemma round64_bounded:
  assumes r: "\<bar>r\<bar> \<le> pow2 k" and k: "- 1074 \<le> k" "k < 1024"
  shows "\<exists>v. round64 r = Fin v \<and> \<bar>v\<bar> \<le> pow2 k \<and> (0 \<le> r \<longrightarrow> 0 \<le> v) \<and> (r \<le> 0 \<longrightarrow> v \<le> 0)"
proof (cases "r = 0")
  case True
  then show ?thesis using pow2_pos [of k] by (simp add: round64_def)
next
  case False
  define a where "a = \<bar>r\<bar>"
  define e where "e = max (ilog2 a - 52) (- 1074)"
  define v where "v = of_int (round_half_even (a / pow2 e)) * pow2 e"
  have a0: "0 < a" using False by (simp add: a_def)
  have "pow2 (ilog2 a) \<le> a" using ilog2_bounds [OF a0] by simp
  then have "ilog2 a \<le> k" using r unfolding a_def [symmetric] by (rule pow2_le_le_exp)
  then have ek: "e \<le> k" using k by (simp add: e_def)
  have "a / pow2 e \<le> pow2 k / pow2 e"
    using r pow2_pos [of e] by (simp add: a_def divide_right_mono)
  then have "a / pow2 e \<le> of_int (2 ^ nat (k - e))" by (simp only: pow2_ratio_int [OF ek])
  then have "round_half_even (a / pow2 e) \<le> 2 ^ nat (k - e)" by (rule round_half_even_le)
  then have "(of_int (round_half_even (a / pow2 e)) :: rat) \<le> of_int (2 ^ nat (k - e))"
    by (simp only: of_int_le_iff)
  then have "v \<le> of_int (2 ^ nat (k - e)) * pow2 e"
    unfolding v_def using pow2_pos [of e] by (simp add: mult_right_mono)
  also have "of_int (2 ^ nat (k - e)) * pow2 e = pow2 k"
    using pow2_ratio_int [OF ek] pow2_pos [of e] by (simp add: field_simps)
  finally have vk: "v \<le> pow2 k" .
  have "0 \<le> a / pow2 e" using a0 pow2_pos [of e] by simp
  then have "0 \<le> round_half_even (a / pow2 e)" by (rule round_half_even_nonneg)
  then have v0: "0 \<le> v" using pow2_pos [of e] by (simp add: v_def)
  have "pow2 k < pow2 1024" using k by (intro pow2_strict_mono) simp
  then have nov: "\<not> pow2 1024 \<le> v" using vk by simp
  have "round64 r = Fin (if 0 < r then v else - v)"
    using False nov
    by (simp add: round64_def Let_def a_def [symmetric] e_def [symmetric] v_def [symmetric])
  then show ?thesis using v0 vk False by auto
qed

lemma pow2_0: "pow2 0 = 1"
  by (simp add: pow2_def)

lemma round64_small:
  assumes r: "r = of_int m * pow2 k" and m: "\<bar>m\<bar> < 2 ^ 53"
    and k: "- 1074 \<le> k" "k \<le> 0"
  shows "round64 r = Fin r"
proof -
  have "of_int \<bar>m\<bar> < (of_int (2 ^ 53) :: rat)" using m by (simp only: of_int_less_iff)
  then have "of_int \<bar>m\<bar> < pow2 53" by (simp add: pow2_def)
  moreover have "pow2 k \<le> 1" using pow2_mono [OF k(2)] by (simp add: pow2_0)
  ultimately have "of_int \<bar>m\<bar> * pow2 k < pow2 53 * 1"
    using pow2_pos [of k] by (intro mult_less_le_imp_less) simp_all
  moreover have "\<bar>r\<bar> = of_int \<bar>m\<bar> * pow2 k"
    using pow2_pos [of k] by (simp add: r abs_mult)
  moreover have "pow2 53 < pow2 1024" by (intro pow2_strict_mono) simp
  ultimately have "\<bar>r\<bar> < pow2 1024" by simp
  with r m k(1) show ?thesis by (rule round64_exact)
qed

lemma round64_of_int: "\<bar>n\<bar> < 2 ^ 53 \<Longrightarrow> round64 (of_int n) = Fin (of_int n)"
  by (rule round64_small [where m = n and k = 0]) (simp_all add: pow2_0)

lemma js_int_exact: "\<bar>n\<bar> < 2 ^ 53 \<Longrightarrow> js_int n = Fin (of_int n)"
  by (simp add: js_int_def round64_of_int)

lemma round64_0: "round64 0 = Fin 0"
  by (simp add: round64_def)

lemma round64_neg_half: "round64 (- (1 / 2)) = Fin (- (1 / 2))"
  by (rule round64_small [where m = "- 1" and k = "- 1"]) (simp_all add: pow2_def)

lemma round64_half: "round64 (1 / 2) = Fin (1 / 2)"
  by (rule round64_small [where m = 1 and k = "- 1"]) (simp_all add: pow2_def)

lemma round64_numeral:
  "(numeral n :: int) < 2 ^ 53 \<Longrightarrow> round64 (numeral n) = Fin (numeral n)"
  using round64_of_int [of "numeral n"] by simp


lemma round_half_even_nearest: "\<bar>of_int (round_half_even q) - q\<bar> \<le> 1 / 2"
proof -
  define f where "f = \<lfloor>q\<rfloor>"
  define d where "d = q - of_int f"
  have d: "0 \<le> d" "d < 1" unfolding d_def f_def by linarith+
  have q: "q = of_int f + d" by (simp add: d_def)
  have r: "round_half_even q
      = (if d < 1 / 2 then f else if 1 / 2 < d then f + 1 else if even f then f else f + 1)"
    by (simp add: round_half_even_def Let_def f_def d_def)
  have "of_int (round_half_even q) - q = - d \<or> of_int (round_half_even q) - q = 1 - d"
    unfolding r by (subst (1 2) q) simp
  moreover have "of_int (round_half_even q) - q = - d \<Longrightarrow> d \<le> 1 / 2"
    unfolding r by (subst (asm) q) (simp split: if_splits)
  moreover have "of_int (round_half_even q) - q = 1 - d \<Longrightarrow> 1 / 2 \<le> d"
    unfolding r by (subst (asm) q) (simp split: if_splits)
  ultimately show ?thesis using d by (auto simp add: abs_if)
qed

text \<open>A finite result of \<open>round64\<close> is within half a unit in the last place of its argument.\<close>

lemma round64_nearest:
  assumes "round64 r = Fin v" and "r \<noteq> 0"
  shows "\<bar>v - r\<bar> \<le> pow2 (max (ilog2 \<bar>r\<bar> - 52) (- 1074)) / 2"
proof -
  define e where "e = max (ilog2 \<bar>r\<bar> - 52) (- 1074)"
  define m where "m = round_half_even (\<bar>r\<bar> / pow2 e)"
  have "round64 r = (if pow2 1024 \<le> of_int m * pow2 e then (if 0 < r then PInf else NInf)
      else Fin (if 0 < r then of_int m * pow2 e else - (of_int m * pow2 e)))"
    unfolding round64_def Let_def m_def e_def using assms(2) by simp
  then have v: "v = (if 0 < r then of_int m * pow2 e else - (of_int m * pow2 e))"
    using assms(1) by (simp split: if_splits)
  have "of_int m * pow2 e - \<bar>r\<bar> = (of_int m - \<bar>r\<bar> / pow2 e) * pow2 e"
    using pow2_pos [of e] by (simp add: left_diff_distrib)
  then have "\<bar>of_int m * pow2 e - \<bar>r\<bar>\<bar> = \<bar>of_int m - \<bar>r\<bar> / pow2 e\<bar> * pow2 e"
    using pow2_pos [of e] by (simp only: abs_mult abs_of_pos)
  also have "\<dots> \<le> 1 / 2 * pow2 e"
    using round_half_even_nearest [of "\<bar>r\<bar> / pow2 e"] pow2_pos [of e]
    by (intro mult_right_mono) (simp_all add: m_def)
  finally have "\<bar>of_int m * pow2 e - \<bar>r\<bar>\<bar> \<le> pow2 e / 2" by simp
  then show ?thesis
    unfolding e_def [symmetric] using assms(2) by (auto simp add: v abs_if split: if_splits)
qed

lemma js_special_values:
  "js_div (Fin 1) (Fin 0) = PInf" "js_div (Fin 0) (Fin 0) = NaN"
  "js_mul PInf (Fin 0) = NaN" "js_add PInf NInf = NaN"
  "\<not> js_lt NaN (Fin 4)" "\<not> js_lt PInf (Fin 4)" "js_lt NInf (Fin 4)"
  by (simp_all add: js_div_def js_mul_def js_add_def js_lt_def js_inf_def js_sign_def)

text \<open>Known values of binary64 arithmetic, as checks of the model.\<close>

lemma round64_unfold:
  assumes "r \<noteq> 0" and "e = max (ilog2 \<bar>r\<bar> - 52) (- 1074)"
    and "m = round_half_even (\<bar>r\<bar> / pow2 e)" and "of_int m * pow2 e \<le> pow2 k" and "k < 1024"
  shows "round64 r = Fin (if 0 < r then of_int m * pow2 e else - (of_int m * pow2 e))"
proof -
  have "pow2 k < pow2 1024" using assms(5) by (rule pow2_strict_mono)
  then have "\<not> pow2 1024 \<le> of_int m * pow2 e" using assms(4) by simp
  then show ?thesis using assms(1,2,3) by (simp add: round64_def Let_def)
qed

text \<open>The decimal \<open>0.1\<close> is the binary64 value \<open>3602879701896397 / 2\<^sup>5\<^sup>5\<close>.\<close>

lemma round64_tenth: "round64 (1 / 10) = Fin (3602879701896397 / 36028797018963968)"
proof -
  have e: "max (ilog2 \<bar>1 / 10\<bar> - 52) (- 1074) = - 56" by code_simp
  have p: "pow2 (- 56) = 1 / 72057594037927936" by (simp add: pow2_def)
  have m: "round_half_even (\<bar>1 / 10\<bar> / pow2 (- 56)) = 7205759403792794"
    unfolding p by code_simp
  have "round64 (1 / 10) = Fin (if (0::rat) < 1 / 10 then of_int 7205759403792794 * pow2 (- 56)
      else - (of_int 7205759403792794 * pow2 (- 56)))"
    by (rule round64_unfold [where k = 0, OF _ e [symmetric] m [symmetric]])
       (simp_all add: p pow2_0)
  then show ?thesis by (simp add: p)
qed

text \<open>A tie goes to the even neighbour: \<open>2\<^sup>5\<^sup>3 + 1\<close> rounds down, \<open>2\<^sup>5\<^sup>3 + 3\<close> rounds up.\<close>

lemma round64_ties:
  "round64 9007199254740993 = Fin 9007199254740992"
  "round64 9007199254740995 = Fin 9007199254740996"
proof -
  have p: "pow2 1 = 2" by (simp add: pow2_def)
  have b: "pow2 54 = 18014398509481984" by (simp add: pow2_def)
  have e1: "max (ilog2 \<bar>9007199254740993\<bar> - 52) (- 1074) = 1" by code_simp
  have m1: "round_half_even (\<bar>9007199254740993\<bar> / pow2 1) = 4503599627370496"
    unfolding p by code_simp
  have "round64 9007199254740993 = Fin (if (0::rat) < 9007199254740993
      then of_int 4503599627370496 * pow2 1 else - (of_int 4503599627370496 * pow2 1))"
    by (rule round64_unfold [where k = 54, OF _ e1 [symmetric] m1 [symmetric]])
       (simp_all add: p b)
  then show "round64 9007199254740993 = Fin 9007199254740992" by (simp add: p)
  have e2: "max (ilog2 \<bar>9007199254740995\<bar> - 52) (- 1074) = 1" by code_simp
  have m2: "round_half_even (\<bar>9007199254740995\<bar> / pow2 1) = 4503599627370498"
    unfolding p by code_simp
  have "round64 9007199254740995 = Fin (if (0::rat) < 9007199254740995
      then of_int 4503599627370498 * pow2 1 else - (of_int 4503599627370498 * pow2 1))"
    by (rule round64_unfold [where k = 54, OF _ e2 [symmetric] m2 [symmetric]])
       (simp_all add: p b)
  then show "round64 9007199254740995 = Fin 9007199254740996" by (simp add: p)
qed


section \<open>Theorems: fractals\<close>


lemma mandelbrot_while_count:
  "i \<le> iterations \<Longrightarrow>
   i \<le> snd (snd (mandelbrot_while cx cy iterations zx zy i))
   \<and> snd (snd (mandelbrot_while cx cy iterations zx zy i)) \<le> iterations"
proof (induction cx cy iterations zx zy i rule: mandelbrot_while.induct)
  case (1 cx cy iterations zx zy i)
  show ?case
  proof (cases "js_lt (norm2 zx zy) (Fin 4) \<and> i < iterations")
    case True
    let ?zx = "js_add (js_sub (js_mul zx zx) (js_mul zy zy)) cx"
    let ?zy = "js_add (js_mul (js_mul (Fin 2) zx) zy) cy"
    have step: "mandelbrot_while cx cy iterations zx zy i
        = mandelbrot_while cx cy iterations ?zx ?zy (i + 1)"
      using True by (subst mandelbrot_while.simps) (simp add: Let_def)
    have "i + 1 \<le> iterations" using True by simp
    then have "i + 1 \<le> snd (snd (mandelbrot_while cx cy iterations ?zx ?zy (i + 1)))
      \<and> snd (snd (mandelbrot_while cx cy iterations ?zx ?zy (i + 1))) \<le> iterations"
      by (rule "1.IH" [OF True refl refl])
    then show ?thesis by (simp add: step)
  next
    case False
    then have "mandelbrot_while cx cy iterations zx zy i = (zx, zy, i)"
      by (subst mandelbrot_while.simps) auto
    then show ?thesis using "1.prems" by simp
  qed
qed

lemma mandelbrot_while_exit:
  "mandelbrot_while cx cy iterations zx zy i = (zx', zy', i') \<Longrightarrow>
   \<not> js_lt (norm2 zx' zy') (Fin 4) \<or> \<not> i' < iterations"
proof (induction cx cy iterations zx zy i rule: mandelbrot_while.induct)
  case (1 cx cy iterations zx zy i)
  show ?case
  proof (cases "js_lt (norm2 zx zy) (Fin 4) \<and> i < iterations")
    case True
    let ?zx = "js_add (js_sub (js_mul zx zx) (js_mul zy zy)) cx"
    let ?zy = "js_add (js_mul (js_mul (Fin 2) zx) zy) cy"
    have step: "mandelbrot_while cx cy iterations zx zy i
        = mandelbrot_while cx cy iterations ?zx ?zy (i + 1)"
      using True by (subst mandelbrot_while.simps) (simp add: Let_def)
    then have "mandelbrot_while cx cy iterations ?zx ?zy (i + 1) = (zx', zy', i')"
      using "1.prems" by simp
    then show ?thesis by (rule "1.IH" [OF True refl refl])
  next
    case False
    then have "mandelbrot_while cx cy iterations zx zy i = (zx, zy, i)"
      by (subst mandelbrot_while.simps) auto
    then show ?thesis using "1.prems" False by auto
  qed
qed

lemma render_pixels:
  "set (render zoom iterations) = {(x, y, pixel zoom iterations x y) | x y. x < 400 \<and> y < 400}"
  by (auto simp add: render_def)

text \<open>The loop walks along the orbit: it stops at the first point that fails the test.\<close>

lemma mandelbrot_while_orbit:
  "mandelbrot_while cx cy iterations zx zy i = (zx', zy', i') \<Longrightarrow> 0 \<le> i \<Longrightarrow>
   orbit cx cy (nat i) = (zx, zy) \<Longrightarrow>
   orbit cx cy (nat i') = (zx', zy') \<and> i \<le> i'
   \<and> (\<forall>n. nat i \<le> n \<and> n < nat i' \<longrightarrow>
         js_lt (norm2 (fst (orbit cx cy n)) (snd (orbit cx cy n))) (Fin 4))"
proof (induction cx cy iterations zx zy i rule: mandelbrot_while.induct)
  case (1 cx cy iterations zx zy i)
  show ?case
  proof (cases "js_lt (norm2 zx zy) (Fin 4) \<and> i < iterations")
    case True
    let ?zx = "js_add (js_sub (js_mul zx zx) (js_mul zy zy)) cx"
    let ?zy = "js_add (js_mul (js_mul (Fin 2) zx) zy) cy"
    have "mandelbrot_while cx cy iterations zx zy i
        = mandelbrot_while cx cy iterations ?zx ?zy (i + 1)"
      using True by (subst mandelbrot_while.simps) (simp add: Let_def)
    then have run: "mandelbrot_while cx cy iterations ?zx ?zy (i + 1) = (zx', zy', i')"
      using "1.prems"(1) by simp
    have suc: "nat (i + 1) = Suc (nat i)" using "1.prems"(2) by simp
    have next_point: "orbit cx cy (nat (i + 1)) = (?zx, ?zy)"
      by (simp add: suc "1.prems"(3))
    have ih: "orbit cx cy (nat i') = (zx', zy') \<and> i + 1 \<le> i'
      \<and> (\<forall>n. nat (i + 1) \<le> n \<and> n < nat i' \<longrightarrow>
         js_lt (norm2 (fst (orbit cx cy n)) (snd (orbit cx cy n))) (Fin 4))"
      using "1.prems"(2) by (intro "1.IH" [OF True refl refl run] next_point) simp
    have here: "js_lt (norm2 (fst (orbit cx cy (nat i))) (snd (orbit cx cy (nat i)))) (Fin 4)"
      using True by (simp add: "1.prems"(3))
    have "js_lt (norm2 (fst (orbit cx cy n)) (snd (orbit cx cy n))) (Fin 4)"
      if "nat i \<le> n \<and> n < nat i'" for n
    proof (cases "n = nat i")
      case True
      then show ?thesis using here by simp
    next
      case False
      then have "nat (i + 1) \<le> n \<and> n < nat i'" using that suc by simp
      then show ?thesis using ih by blast
    qed
    then show ?thesis using ih by auto
  next
    case False
    then have "mandelbrot_while cx cy iterations zx zy i = (zx, zy, i)"
      by (subst mandelbrot_while.simps) auto
    then show ?thesis using "1.prems" by auto
  qed
qed

text \<open>
  C1. For every zoom, every bound \<open>iterations \<ge> 0\<close> and every pixel, the count of the loop
  is between 0 and \<open>iterations\<close>; the orbit of \<open>z \<leftarrow> z\<^sup>2 + c\<close> from 0 passes the test
  \<open>|z|\<^sup>2 < 4\<close> at every step before the count and, when the count is below the bound, fails
  it at the count; and the pixel is black (saturation and lightness 0) exactly when the
  count equals \<open>iterations\<close>. By \<open>render_pixels\<close> the raster is drawn from these pixels.
\<close>

theorem iteration_count_bounds:
  assumes "0 \<le> iterations"
  shows "0 \<le> iterationCount zoom iterations x y
    \<and> iterationCount zoom iterations x y \<le> iterations
    \<and> (\<forall>n. n < nat (iterationCount zoom iterations x y) \<longrightarrow>
          js_lt (norm2 (fst (orbit (sample_cx zoom x) (sample_cy zoom y) n))
                       (snd (orbit (sample_cx zoom x) (sample_cy zoom y) n))) (Fin 4))
    \<and> (iterationCount zoom iterations x y < iterations \<longrightarrow>
          \<not> js_lt (norm2
                (fst (orbit (sample_cx zoom x) (sample_cy zoom y)
                        (nat (iterationCount zoom iterations x y))))
                (snd (orbit (sample_cx zoom x) (sample_cy zoom y)
                        (nat (iterationCount zoom iterations x y))))) (Fin 4))
    \<and> ((saturation (pixel zoom iterations x y) = 0 \<and> lightness (pixel zoom iterations x y) = 0)
         \<longleftrightarrow> iterationCount zoom iterations x y = iterations)"
proof -
  define cx cy where "cx = sample_cx zoom x" and "cy = sample_cy zoom y"
  obtain zx zy i where run: "mandelbrot_while cx cy iterations (Fin 0) (Fin 0) 0 = (zx, zy, i)"
    using prod_cases3 by blast
  have i: "iterationCount zoom iterations x y = i"
    by (simp add: iterationCount_def cx_def [symmetric] cy_def [symmetric] run)
  have range: "0 \<le> i \<and> i \<le> iterations"
    using mandelbrot_while_count [OF assms, of cx cy "Fin 0" "Fin 0"] by (simp add: run)
  have walk: "orbit cx cy (nat i) = (zx, zy) \<and> 0 \<le> i
    \<and> (\<forall>n. nat 0 \<le> n \<and> n < nat i \<longrightarrow>
         js_lt (norm2 (fst (orbit cx cy n)) (snd (orbit cx cy n))) (Fin 4))"
    by (rule mandelbrot_while_orbit [OF run]) simp_all
  have stop: "\<not> js_lt (norm2 zx zy) (Fin 4) \<or> \<not> i < iterations"
    using run by (rule mandelbrot_while_exit)
  have black: "(saturation (pixel zoom iterations x y) = 0
      \<and> lightness (pixel zoom iterations x y) = 0) \<longleftrightarrow> i = iterations"
    using range by (auto simp add: pixel_def colour_def i)
  show ?thesis
    unfolding i cx_def [symmetric] cy_def [symmetric]
    using range walk stop black by auto
qed

theorem iteration_count_bounds_witness:
  "(0::int) \<le> 50
   \<and> 0 \<le> iterationCount (Fin 1) 50 200 200
   \<and> iterationCount (Fin 1) 50 200 200 \<le> 50"
  using iteration_count_bounds [of 50 "Fin 1" 200 200] by simp

lemma sample_centre:
  "sample_cx (Fin 1) 200 = Fin (- (1 / 2))" "sample_cy (Fin 1) 200 = Fin 0"
  by (simp_all add: sample_cx_def sample_cy_def width_def height_def js_int_def js_sub_def
      js_div_def js_add_def js_neg_def round64_numeral round64_0 round64_neg_half)

lemma pow2_m2: "pow2 (- 2) = 1 / 4"
  by (simp add: pow2_def)

lemma pow2_m1: "pow2 (- 1) = 1 / 2"
  by (simp add: pow2_def)

lemma round64_quarter:
  assumes "0 \<le> r" "r \<le> 1 / 4"
  obtains w where "round64 r = Fin w" "0 \<le> w" "w \<le> 1 / 4"
proof -
  have "\<bar>r\<bar> \<le> pow2 (- 2)" using assms by (simp add: pow2_m2)
  then have "\<exists>v. round64 r = Fin v \<and> \<bar>v\<bar> \<le> pow2 (- 2)
      \<and> (0 \<le> r \<longrightarrow> 0 \<le> v) \<and> (r \<le> 0 \<longrightarrow> v \<le> 0)"
    by (rule round64_bounded) simp_all
  then show ?thesis using assms(1) that by (auto simp add: pow2_m2)
qed

lemma centre_square:
  assumes "- (1 / 2) \<le> v" "v \<le> (0::rat)"
  shows "0 \<le> v * v" "v * v \<le> 1 / 4"
proof -
  show "0 \<le> v * v" by simp
  have "v * v = (- v) * (- v)" by simp
  also have "\<dots> \<le> (1 / 2) * (1 / 2)" using assms by (intro mult_mono) simp_all
  finally show "v * v \<le> 1 / 4" by simp
qed

text \<open>One pass of the loop body at \<open>c = -1/2\<close>, from a real \<open>z\<close> in \<open>[-1/2, 0]\<close>.\<close>

lemma centre_step:
  assumes "- (1 / 2) \<le> v" "v \<le> 0"
  shows "\<exists>v'. js_add (js_sub (js_mul (Fin v) (Fin v)) (js_mul (Fin 0) (Fin 0))) (Fin (- (1 / 2)))
            = Fin v' \<and> - (1 / 2) \<le> v' \<and> v' \<le> 0"
    and "js_add (js_mul (js_mul (Fin 2) (Fin v)) (Fin 0)) (Fin 0) = Fin 0"
    and "js_lt (norm2 (Fin v) (Fin 0)) (Fin 4)"
proof -
  obtain w where w: "round64 (v * v) = Fin w" "0 \<le> w" "w \<le> 1 / 4"
    using centre_square [OF assms] by (rule round64_quarter)
  obtain w2 where w2: "round64 w = Fin w2" "0 \<le> w2" "w2 \<le> 1 / 4"
    using w(2,3) by (rule round64_quarter)
  have sq: "js_mul (Fin v) (Fin v) = Fin w" by (simp add: js_mul_def w)
  have z: "js_mul (Fin 0) (Fin 0) = Fin 0" by (simp add: js_mul_def round64_0)
  have sub: "js_sub (Fin w) (Fin 0) = Fin w2"
    by (simp add: js_sub_def js_neg_def js_add_def w2)
  have "\<bar>w2 - 1 / 2\<bar> \<le> pow2 (- 1)" using w2(2,3) by (simp add: pow2_m1)
  then have "\<exists>v'. round64 (w2 - 1 / 2) = Fin v' \<and> \<bar>v'\<bar> \<le> pow2 (- 1)
      \<and> (0 \<le> w2 - 1 / 2 \<longrightarrow> 0 \<le> v') \<and> (w2 - 1 / 2 \<le> 0 \<longrightarrow> v' \<le> 0)"
    by (rule round64_bounded) simp_all
  then obtain v' where v': "round64 (w2 - 1 / 2) = Fin v'" "\<bar>v'\<bar> \<le> 1 / 2" "v' \<le> 0"
    using w2(3) by (auto simp add: pow2_m1)
  have "js_add (Fin w2) (Fin (- (1 / 2))) = Fin v'" using v'(1) by (simp add: js_add_def)
  then show "\<exists>v'. js_add (js_sub (js_mul (Fin v) (Fin v)) (js_mul (Fin 0) (Fin 0)))
      (Fin (- (1 / 2))) = Fin v' \<and> - (1 / 2) \<le> v' \<and> v' \<le> 0"
    using v'(2,3) by (auto simp add: sq z sub)
  have "\<bar>2 * v\<bar> \<le> pow2 0" using assms by (simp add: pow2_0)
  then have "\<exists>u. round64 (2 * v) = Fin u \<and> \<bar>u\<bar> \<le> pow2 0
      \<and> (0 \<le> 2 * v \<longrightarrow> 0 \<le> u) \<and> (2 * v \<le> 0 \<longrightarrow> u \<le> 0)"
    by (rule round64_bounded) simp_all
  then obtain u where "round64 (2 * v) = Fin u" by blast
  then show "js_add (js_mul (js_mul (Fin 2) (Fin v)) (Fin 0)) (Fin 0) = Fin 0"
    by (simp add: js_mul_def js_add_def round64_0)
  have "norm2 (Fin v) (Fin 0) = Fin w2"
    by (simp add: norm2_def sq z js_add_def w2)
  then show "js_lt (norm2 (Fin v) (Fin 0)) (Fin 4)"
    using w2(3) by (simp add: js_lt_def)
qed

lemma centre_loop:
  "- (1 / 2) \<le> v \<Longrightarrow> v \<le> 0 \<Longrightarrow> i \<le> iterations \<Longrightarrow>
   \<exists>v'. mandelbrot_while (Fin (- (1 / 2))) (Fin 0) iterations (Fin v) (Fin 0) i
          = (Fin v', Fin 0, iterations) \<and> - (1 / 2) \<le> v' \<and> v' \<le> 0"
proof (induction "nat (iterations - i)" arbitrary: v i)
  case 0
  then have "\<not> i < iterations" by simp
  then have "mandelbrot_while (Fin (- (1 / 2))) (Fin 0) iterations (Fin v) (Fin 0) i
      = (Fin v, Fin 0, i)"
    by (subst mandelbrot_while.simps) auto
  moreover have "i = iterations" using "0.hyps" "0.prems"(3) by simp
  ultimately show ?case using "0.prems" by simp
next
  case (Suc n)
  then have lt: "i < iterations" by simp
  obtain v1 where v1: "js_add (js_sub (js_mul (Fin v) (Fin v)) (js_mul (Fin 0) (Fin 0)))
      (Fin (- (1 / 2))) = Fin v1" "- (1 / 2) \<le> v1" "v1 \<le> 0"
    using centre_step(1) [OF Suc.prems(1,2)] by blast
  have "mandelbrot_while (Fin (- (1 / 2))) (Fin 0) iterations (Fin v) (Fin 0) i
      = mandelbrot_while (Fin (- (1 / 2))) (Fin 0) iterations (Fin v1) (Fin 0) (i + 1)"
    using lt centre_step(2,3) [OF Suc.prems(1,2)] v1(1)
    by (subst mandelbrot_while.simps) (simp add: Let_def)
  moreover have "n = nat (iterations - (i + 1))" using Suc.hyps(2) by simp
  then have "\<exists>v'. mandelbrot_while (Fin (- (1 / 2))) (Fin 0) iterations (Fin v1) (Fin 0) (i + 1)
          = (Fin v', Fin 0, iterations) \<and> - (1 / 2) \<le> v' \<and> v' \<le> 0"
    using v1(2,3) lt by (intro Suc.hyps(1)) simp_all
  ultimately show ?case by simp
qed

lemma centre_orbit:
  "\<exists>v. orbit (Fin (- (1 / 2))) (Fin 0) n = (Fin v, Fin 0) \<and> - (1 / 2) \<le> v \<and> v \<le> 0"
proof (induction n)
  case 0
  show ?case by simp
next
  case (Suc n)
  then obtain v where v: "orbit (Fin (- (1 / 2))) (Fin 0) n = (Fin v, Fin 0)"
    "- (1 / 2) \<le> v" "v \<le> 0" by blast
  show ?case using centre_step(1,2) [OF v(2,3)] by (simp add: v(1))
qed

text \<open>
  C7. At zoom 1 with 50 iterations the centre pixel \<open>(200, 200)\<close> is the sample
  \<open>(-0.5, 0)\<close>; its count reaches 50, no point of its orbit has \<open>|z|\<^sup>2\<close> at or above 4,
  and the pixel is black. The orbit stays in \<open>[-1/2, 0]\<close> under binary64 rounding.
\<close>

theorem centre_pixel_inside:
  "sample_cx (Fin 1) 200 = Fin (- (1 / 2))
   \<and> sample_cy (Fin 1) 200 = Fin 0
   \<and> iterationCount (Fin 1) 50 200 200 = 50
   \<and> (\<forall>n. js_lt (norm2 (fst (orbit (sample_cx (Fin 1) 200) (sample_cy (Fin 1) 200) n))
                        (snd (orbit (sample_cx (Fin 1) 200) (sample_cy (Fin 1) 200) n))) (Fin 4))
   \<and> saturation (pixel (Fin 1) 50 200 200) = 0
   \<and> lightness (pixel (Fin 1) 50 200 200) = 0"
proof -
  have "\<exists>v'. mandelbrot_while (Fin (- (1 / 2))) (Fin 0) 50 (Fin 0) (Fin 0) 0
          = (Fin v', Fin 0, 50) \<and> - (1 / 2) \<le> v' \<and> v' \<le> 0"
    by (rule centre_loop) simp_all
  then have count: "iterationCount (Fin 1) 50 200 200 = 50"
    by (auto simp add: iterationCount_def sample_centre)
  have inside: "js_lt (norm2 (fst (orbit (Fin (- (1 / 2))) (Fin 0) n))
      (snd (orbit (Fin (- (1 / 2))) (Fin 0) n))) (Fin 4)" for n
  proof -
    obtain v where v: "orbit (Fin (- (1 / 2))) (Fin 0) n = (Fin v, Fin 0)"
      "- (1 / 2) \<le> v" "v \<le> 0" using centre_orbit by blast
    show ?thesis using centre_step(3) [OF v(2,3)] by (simp add: v(1))
  qed
  show ?thesis
    using inside by (simp add: sample_centre count pixel_def colour_def)
qed


section \<open>Theorems: probability\<close>

lemma js_div_counters:
  assumes "\<bar>a\<bar> < 2 ^ 53" "\<bar>b\<bar> < 2 ^ 53" "b \<noteq> 0"
  shows "js_div (js_int a) (js_int b) = round64 (of_int a / of_int b)"
  using assms by (simp add: js_int_exact js_div_def)

text \<open>
  C8. Whatever the state, \<^verbatim>\<open>reset()\<close> leaves zero trials, zero heads and an empty
  history.
\<close>

theorem reset_clears:
  "trials (reset s) = 0 \<and> heads (reset s) = 0 \<and> history (reset s) = []"
  by (simp add: reset_def)

text \<open>
  A call of the handler of the current render, as a click on the button makes: the
  counters, the length of the history and the ratio are those of the state before.
\<close>

lemma runTrial_current:
  "trials (runTrial s u s) = trials s + 1
   \<and> heads (runTrial s u s) = (if 1 / 2 < u then heads s + 1 else heads s)
   \<and> length (history (runTrial s u s)) = min 51 (length (history s) + 1)
   \<and> butlast (history (runTrial s u s)) = drop (length (history s) - 50) (history s)
   \<and> last (history (runTrial s u s))
       = (if 1 / 2 < u then js_div (js_int (int (heads s + 1))) (js_int (int (trials s + 1)))
          else js_div (js_int (int (heads s))) (js_int (int (trials s + 1))))"
  by (simp add: runTrial_def Let_def slice_last_def newRatio_def)

text \<open>
  C2, at the second timer of \<^verbatim>\<open>runMany\<close> started in the initial state. The first
  timer drew heads and left 1 trial, 1 head; the second draws tails. Its handler is still
  the one of the initial render, so the ratio it pushes is \<open>0 / (0 + 1) = 0\<close>, where the
  state before the call gives \<open>1 / (1 + 1) = 1/2\<close>.
\<close>

theorem runTrial_stale_ratio:
  "runTrial sim_init (1 / 4) (runTrial sim_init (3 / 4) sim_init)
     = \<lparr> trials = 2, heads = 1, history = [Fin 1, Fin 0] \<rparr>
   \<and> js_div (js_int (int (heads (runTrial sim_init (3 / 4) sim_init))))
             (js_int (int (trials (runTrial sim_init (3 / 4) sim_init) + 1))) = Fin (1 / 2)"
  by (simp add: runTrial_def sim_init_def Let_def slice_last_def newRatio_def
      js_int_exact js_div_def round64_numeral round64_0 round64_half
      round64_of_int [of 1, simplified])

text \<open>
  C6, as stated, fails: after one flip that gives heads from the initial state the entry
  appended is the ratio 1, not its distance 1/2 from 0.5.
\<close>

theorem history_not_deviation:
  "last (history (runTrial sim_init (3 / 4) sim_init)) = Fin 1
   \<and> js_abs (js_sub (newRatio sim_init (1 / 2 < (3 / 4 :: rat))) (Fin (1 / 2))) = Fin (1 / 2)
   \<and> last (history (runTrial sim_init (3 / 4) sim_init))
       \<noteq> js_abs (js_sub (newRatio sim_init (1 / 2 < (3 / 4 :: rat))) (Fin (1 / 2)))"
  by (simp add: runTrial_def sim_init_def Let_def slice_last_def newRatio_def
      js_int_exact js_div_def js_abs_def js_sub_def js_neg_def js_add_def round64_half
      round64_of_int [of 1, simplified])

text \<open>
  C6, amended. A call of the current handler appends the running ratio itself, the
  quotient of the new number of heads by the new number of trials rounded to a binary64
  value; the distance from 0.5 is taken only when a bar is drawn, in \<open>barHeight\<close>.
\<close>

theorem history_raw_ratio:
  assumes "trials s + 1 < 2 ^ 53" and "heads s + 1 < 2 ^ 53"
  shows "history (runTrial s u s) = slice_last 50 (history s)
           @ [round64 (of_nat (if 1 / 2 < u then heads s + 1 else heads s)
                       / of_nat (trials s + 1))]
    \<and> barHeight val = js_mul (js_abs (js_sub val (Fin (1 / 2)))) (Fin 500)"
proof -
  have t: "\<bar>int (trials s + 1)\<bar> < 2 ^ 53" using assms(1) by (simp flip: of_nat_less_iff)
  have h1: "\<bar>int (heads s + 1)\<bar> < 2 ^ 53" using assms(2) by (simp flip: of_nat_less_iff)
  have h0: "\<bar>int (heads s)\<bar> < 2 ^ 53" using assms(2) by (simp flip: of_nat_less_iff)
  have nz: "int (trials s + 1) \<noteq> 0" by simp
  have "newRatio s (1 / 2 < u) = round64 (of_nat (if 1 / 2 < u then heads s + 1
      else heads s) / of_nat (trials s + 1))"
    using js_div_counters [OF h1 t nz] js_div_counters [OF h0 t nz]
    by (simp add: newRatio_def)
  then show ?thesis by (simp add: runTrial_def Let_def barHeight_def)
qed

theorem history_raw_ratio_witness:
  "trials sim_init + 1 < 2 ^ 53 \<and> heads sim_init + 1 < 2 ^ 53
   \<and> history (runTrial sim_init (3 / 4) sim_init) = [Fin 1]
   \<and> barHeight (Fin 1) = Fin 250"
proof -
  have a: "trials sim_init + 1 < 2 ^ 53" by (simp add: sim_init_def)
  have b: "heads sim_init + 1 < 2 ^ 53" by (simp add: sim_init_def)
  have c: "history sim_init = []" "heads sim_init = 0" "trials sim_init = 0"
    by (simp_all add: sim_init_def)
  have d: "barHeight (Fin 1) = Fin 250"
    by (simp add: barHeight_def js_abs_def js_sub_def js_neg_def js_add_def js_mul_def
        round64_half round64_numeral)
  show ?thesis
    using history_raw_ratio [OF a b, of "3 / 4" "Fin 1"] a b d
    by (simp add: c slice_last_def round64_of_int [of 1, simplified])
qed

lemma runTrial_history:
  "history (runTrial seen u s) = slice_last 50 (history s) @ [newRatio seen (1 / 2 < u)]"
  by (simp add: runTrial_def Let_def)

text \<open>
  Each call through a stale handler pushes one of the same two ratios, so the entries
  known to be among them grow by one with each call, up to the 51 the history keeps.
\<close>

lemma runTrial_recent:
  assumes "set (slice_last k (history s)) \<subseteq> {newRatio seen True, newRatio seen False}"
  shows "set (slice_last (min 51 (Suc k)) (history (runTrial seen u s)))
           \<subseteq> {newRatio seen True, newRatio seen False}"
proof -
  define h where "h = history s"
  define m where "m = min 51 (Suc k) - 1"
  have m: "m \<le> 50" "m \<le> k" "min 51 (Suc k) = Suc m" by (simp_all add: m_def)
  have "length h - 50 + (length (drop (length h - 50) h) - m) \<ge> length h - k"
    using m(1,2) by simp
  then have "set (drop (length h - 50 + (length (drop (length h - 50) h) - m)) h)
      \<subseteq> set (drop (length h - k) h)"
    by (rule set_drop_subset_set_drop)
  then have old: "set (slice_last m (slice_last 50 h)) \<subseteq> set (slice_last k h)"
    by (simp add: slice_last_def add.commute)
  have "history (runTrial seen u s) = slice_last 50 h @ [newRatio seen (1 / 2 < u)]"
    by (simp only: runTrial_history h_def)
  then have "slice_last (min 51 (Suc k)) (history (runTrial seen u s))
      = slice_last (Suc m) (slice_last 50 h @ [newRatio seen (1 / 2 < u)])"
    by (simp only: m(3))
  also have "\<dots> = slice_last m (slice_last 50 h) @ [newRatio seen (1 / 2 < u)]"
    by (simp add: slice_last_def)
  finally have eq: "slice_last (min 51 (Suc k)) (history (runTrial seen u s))
      = slice_last m (slice_last 50 h) @ [newRatio seen (1 / 2 < u)]" .
  have "newRatio seen (1 / 2 < u) \<in> {newRatio seen True, newRatio seen False}"
    by (cases "1 / 2 < u") simp_all
  then show ?thesis
    unfolding eq using old assms by (auto simp add: h_def)
qed

lemma runTrial_fold_recent:
  "set (slice_last k (history s)) \<subseteq> {newRatio seen True, newRatio seen False} \<Longrightarrow>
   set (slice_last (min 51 (k + length js))
          (history (fold (\<lambda>i. runTrial seen (draw i)) js s)))
     \<subseteq> {newRatio seen True, newRatio seen False}"
proof (induction js arbitrary: k s)
  case Nil
  have "length (history s) - k \<le> length (history s) - min 51 k" by simp
  then have "set (drop (length (history s) - min 51 k) (history s))
      \<subseteq> set (drop (length (history s) - k) (history s))"
    by (rule set_drop_subset_set_drop)
  then show ?case using Nil by (simp add: slice_last_def)
next
  case (Cons j js)
  have "set (slice_last (min 51 (Suc k)) (history (runTrial seen (draw j) s)))
      \<subseteq> {newRatio seen True, newRatio seen False}"
    using Cons.prems by (rule runTrial_recent)
  then have "set (slice_last (min 51 (min 51 (Suc k) + length js))
      (history (fold (\<lambda>i. runTrial seen (draw i)) js (runTrial seen (draw j) s))))
      \<subseteq> {newRatio seen True, newRatio seen False}"
    by (rule Cons.IH)
  moreover have "min 51 (min 51 (Suc k) + length js) = min 51 (k + length (j # js))"
    by simp
  ultimately show ?case by simp
qed

lemma runTrial_fold_length:
  "js \<noteq> [] \<Longrightarrow> length (history (fold (\<lambda>i. runTrial seen (draw i)) js s)) \<le> 51"
proof (induction js arbitrary: s rule: rev_induct)
  case Nil
  then show ?case by simp
next
  case (snoc j js)
  show ?case by (simp add: runTrial_history slice_last_def)
qed

text \<open>
  After \<^verbatim>\<open>runMany\<close> the whole history holds at most two different values, the two
  ratios of the state in which the button was clicked, whatever the 100 draws were.
\<close>

lemma runMany_history:
  "set (history (runMany seen draw s)) \<subseteq> {newRatio seen True, newRatio seen False}"
proof -
  let ?h = "history (fold (\<lambda>i. runTrial seen (draw i)) [0..<100] s)"
  have "set (slice_last 0 (history s)) \<subseteq> {newRatio seen True, newRatio seen False}"
    by (simp add: slice_last_def)
  then have "set (slice_last (min 51 (0 + length [0..<100])) ?h)
      \<subseteq> {newRatio seen True, newRatio seen False}"
    by (rule runTrial_fold_recent)
  moreover have "length ?h \<le> 51" by (rule runTrial_fold_length) simp
  ultimately show ?thesis by (simp add: runMany_def slice_last_def)
qed

lemma runMany_counts: "trials (runMany seen draw s) = trials s + 100"
proof -
  have "trials (fold (\<lambda>i. runTrial seen (draw i)) js s) = trials s + length js" for js
    by (induction js arbitrary: s) (simp_all add: runTrial_def Let_def)
  then show ?thesis by (simp add: runMany_def)
qed


section \<open>Theorems: game theory\<close>

lemma oppMove_tit_for_tat:
  "opponentStrategy s = ''tit-for-tat'' \<Longrightarrow> oppMove s u = or_cooperate (lastOpponentMove s)"
  by (simp add: oppMove_def)

lemma play_fields:
  "opponentStrategy (play c u s) = opponentStrategy s"
  "lastOpponentMove (play c u s) = Some c"
  "opponentChoice (play c u s) = Some (oppMove s u)"
  "yourChoice (play c u s) = Some c"
  "rounds (play c u s) = rounds s + 1"
  by (simp_all add: play_def Let_def)

lemma opponentMoves_length: "length (opponentMoves cs s) = length cs"
  by (induction cs s rule: opponentMoves.induct) simp_all

text \<open>
  Under tit-for-tat, once a move of the human is in the memory, the opponent replays
  the moves of the human one round late.
\<close>

lemma tit_for_tat_shift:
  "opponentStrategy s = ''tit-for-tat'' \<Longrightarrow> [] \<notin> set (map fst cs) \<Longrightarrow>
   opponentMoves cs s = take (length cs) (or_cooperate (lastOpponentMove s) # map fst cs)"
proof (induction cs s rule: opponentMoves.induct)
  case (1 s)
  show ?case by simp
next
  case (2 c u cs s)
  have c: "c \<noteq> []" using "2.prems"(2) by auto
  have strat: "opponentStrategy (play c u s) = ''tit-for-tat''"
    using "2.prems"(1) by (simp add: play_fields)
  have rest: "[] \<notin> set (map fst cs)" using "2.prems"(2) by auto
  have "opponentMoves cs (play c u s) = take (length cs) (c # map fst cs)"
    using "2.IH" [OF strat rest] c by (simp add: play_fields or_cooperate_def)
  then show ?case
    using "2.prems"(1) by (simp add: oppMove_tit_for_tat)
qed

text \<open>
  C3. With the tit-for-tat strategy and no move of the human in the memory (the state at
  mount and after every change of strategy), the opponent cooperates in round 1, and in
  round \<open>n + 1\<close> it plays what the human played in round \<open>n\<close>. Rounds are counted from 1;
  \<open>cs ! k\<close> is round \<open>k + 1\<close>. The human's moves are the two the buttons send.
\<close>

theorem tit_for_tat_replays:
  assumes "opponentStrategy s = ''tit-for-tat''"
    and "lastOpponentMove s = None"
    and "\<forall>c \<in> set (map fst cs). c = ''cooperate'' \<or> c = ''defect''"
  shows "length (opponentMoves cs s) = length cs
    \<and> (0 < length cs \<longrightarrow> opponentMoves cs s ! 0 = ''cooperate'')
    \<and> (\<forall>n. 1 \<le> n \<and> n < length cs \<longrightarrow> opponentMoves cs s ! n = fst (cs ! (n - 1)))"
proof -
  have ne: "[] \<notin> set (map fst cs)"
  proof
    assume "[] \<in> set (map fst cs)"
    with assms(3) have "[] = ''cooperate'' \<or> [] = ''defect''" by blast
    then show False by simp
  qed
  have eq: "opponentMoves cs s = take (length cs) (''cooperate'' # map fst cs)"
    using tit_for_tat_shift [OF assms(1) ne] assms(2) by (simp add: or_cooperate_def)
  have first: "0 < length cs \<longrightarrow> opponentMoves cs s ! 0 = ''cooperate''"
    by (simp add: eq)
  have later: "\<forall>n. 1 \<le> n \<and> n < length cs \<longrightarrow> opponentMoves cs s ! n = fst (cs ! (n - 1))"
  proof (intro allI impI)
    fix n assume n: "1 \<le> n \<and> n < length cs"
    then obtain k where k: "n = Suc k" by (cases n) auto
    show "opponentMoves cs s ! n = fst (cs ! (n - 1))"
      using n by (simp add: eq k)
  qed
  show ?thesis using first later by (simp add: opponentMoves_length)
qed

theorem tit_for_tat_replays_witness:
  "opponentMoves [(''defect'', 0), (''cooperate'', 0), (''defect'', 0)] game_init
     = [''cooperate'', ''defect'', ''cooperate'']
   \<and> opponentMoves [(''defect'', 0), (''cooperate'', 0), (''defect'', 0)] game_init ! 0
     = ''cooperate''
   \<and> opponentMoves [(''defect'', 0), (''cooperate'', 0), (''defect'', 0)] game_init ! 2
     = fst ([(''defect'', 0::rat), (''cooperate'', 0), (''defect'', 0)] ! 1)"
proof -
  have a: "opponentStrategy game_init = ''tit-for-tat''" by (simp add: game_init_def)
  have b: "lastOpponentMove game_init = None" by (simp add: game_init_def)
  have c: "\<forall>c \<in> set (map fst [(''defect'', 0::rat), (''cooperate'', 0), (''defect'', 0)]).
             c = ''cooperate'' \<or> c = ''defect''" by simp
  have d: "opponentMoves [(''defect'', 0), (''cooperate'', 0), (''defect'', 0)] game_init
     = [''cooperate'', ''defect'', ''cooperate'']"
    by (simp add: game_init_def oppMove_def or_cooperate_def play_def Let_def)
  show ?thesis using tit_for_tat_replays [OF a b c] d by simp
qed

text \<open>
  C4. Whatever the state, choosing a strategy in the selector sets both scores and the
  round counter to zero and the memory of the human's last move to \<^verbatim>\<open>null\<close>.
\<close>

theorem changeStrategy_resets:
  "scores (changeStrategy v s) = \<lparr> you = 0, opponent = 0 \<rparr>
   \<and> rounds (changeStrategy v s) = 0
   \<and> lastOpponentMove (changeStrategy v s) = None
   \<and> opponentStrategy (changeStrategy v s) = v"
  by (simp add: changeStrategy_def)

text \<open>
  C5. Against the constant cooperate strategy, \<^verbatim>\<open>play('cooperate')\<close> adds 3 points to
  each score, and \<^verbatim>\<open>play('defect')\<close> adds 5 to the human's and none to the opponent's.
\<close>

theorem play_against_cooperate:
  assumes "opponentStrategy s = ''cooperate''"
  shows "scores (play ''cooperate'' u s)
           = \<lparr> you = you (scores s) + 3, opponent = opponent (scores s) + 3 \<rparr>
    \<and> scores (play ''defect'' u s)
           = \<lparr> you = you (scores s) + 5, opponent = opponent (scores s) + 0 \<rparr>"
  using assms by (simp add: play_def oppMove_def payoff_def Let_def)

theorem play_against_cooperate_witness:
  "opponentStrategy (changeStrategy ''cooperate'' game_init) = ''cooperate''
   \<and> scores (play ''cooperate'' 0 (changeStrategy ''cooperate'' game_init))
       = \<lparr> you = 3, opponent = 3 \<rparr>
   \<and> scores (play ''defect'' 0 (changeStrategy ''cooperate'' game_init))
       = \<lparr> you = 5, opponent = 0 \<rparr>"
proof -
  have a: "opponentStrategy (changeStrategy ''cooperate'' game_init) = ''cooperate''"
    by (simp add: changeStrategy_def)
  have z: "scores (changeStrategy ''cooperate'' game_init) = \<lparr> you = 0, opponent = 0 \<rparr>"
    by (simp add: changeStrategy_def)
  show ?thesis using play_against_cooperate [OF a, of 0] a by (simp add: z)
qed

text \<open>
  C10. Choosing a strategy leaves the two displayed moves of the last round as they
  were: the handler sets neither \<^verbatim>\<open>yourChoice\<close> nor \<^verbatim>\<open>opponentChoice\<close>.
\<close>

theorem changeStrategy_keeps_choices:
  "yourChoice (changeStrategy v s) = yourChoice s
   \<and> opponentChoice (changeStrategy v s) = opponentChoice s"
  by (simp add: changeStrategy_def)


section \<open>Theorems: topology\<close>

lemma tick_mod:
  assumes "0 \<le> r"
  shows "tick r = (r + 1) mod 360"
proof -
  have "sgn (r + 1) = 1" using assms by simp
  then show ?thesis using assms by (simp add: tick_def js_rem_def)
qed

lemma rotation_after_mod: "rotation_after n = int n mod 360"
proof (induction n)
  case 0
  show ?case by (simp add: rotation_after_def)
next
  case (Suc n)
  have "rotation_after (Suc n) = tick (rotation_after n)"
    by (simp add: rotation_after_def)
  also have "\<dots> = (int n mod 360 + 1 mod 360) mod 360"
    using Suc tick_mod [of "int n mod 360"] by simp
  also have "\<dots> = (int n + 1) mod 360"
    by (rule mod_add_eq)
  also have "\<dots> = int (Suc n) mod 360"
    by (simp add: add.commute)
  finally show ?case .
qed

text \<open>
  C9. From the initial angle 0, every tick of the timer moves the angle to its successor
  modulo 360, and the angle after any number of ticks is at least 0 and below 360.
\<close>

theorem rotation_in_range:
  "rotation_after (Suc n) = (rotation_after n + 1) mod 360
   \<and> 0 \<le> rotation_after n \<and> rotation_after n < 360"
proof -
  have "rotation_after (Suc n) = tick (rotation_after n)"
    by (simp add: rotation_after_def)
  moreover have "0 \<le> rotation_after n" "rotation_after n < 360"
    by (simp_all add: rotation_after_mod)
  ultimately show ?thesis using tick_mod by simp
qed

end
